theory Spec2Isabelle
  imports Complex_Main "HOL-Library.Multiset"
begin


section \<open>JavaScript strings and the two validation patterns\<close>

text \<open>
  A string is a list of code units; \<^typ>\<open>char\<close> covers the code units below 256.
  \<open>is_space\<close> is the class \<open>\s\<close> of the regular expressions, which is also what
  \<open>String.prototype.trim\<close> strips: tab, line feed, vertical tab, form feed, carriage
  return, space and no-break space are its members below 256.
\<close>

definition is_space :: "char \<Rightarrow> bool" where
  "is_space c = (c \<in> set [CHR 0x09, CHR 0x0A, CHR 0x0B, CHR 0x0C, CHR 0x0D, CHR 0x20, CHR 0xA0])"

definition is_digit :: "char \<Rightarrow> bool" where
  "is_digit c = (c \<in> set ''0123456789'')"

definition trim :: "string \<Rightarrow> string" where
  "trim s = rev (dropWhile is_space (rev (dropWhile is_space s)))"

text \<open>
  Regular expressions over character classes. \<open>regex_test\<close> models
  \<open>RegExp.prototype.test\<close> for a pattern anchored by \<open>^\<close> and \<open>$\<close> (no flags): the
  whole string has to match. It runs by derivatives; \<open>accepts\<close> is the usual meaning of
  a pattern and the two agree (\<open>regex_test_accepts\<close>).
\<close>

datatype regex = Fail | Eps | Sym "char \<Rightarrow> bool" | Alt regex regex | Seq regex regex | Rep regex

inductive accepts :: "regex \<Rightarrow> string \<Rightarrow> bool" where
  acc_Eps: "accepts Eps []"
| acc_Sym: "P c \<Longrightarrow> accepts (Sym P) [c]"
| acc_AltL: "accepts r s \<Longrightarrow> accepts (Alt r q) s"
| acc_AltR: "accepts q s \<Longrightarrow> accepts (Alt r q) s"
| acc_Seq: "accepts r u \<Longrightarrow> accepts q v \<Longrightarrow> accepts (Seq r q) (u @ v)"
| acc_Rep0: "accepts (Rep r) []"
| acc_RepS: "accepts r u \<Longrightarrow> accepts (Rep r) v \<Longrightarrow> accepts (Rep r) (u @ v)"

fun nullable :: "regex \<Rightarrow> bool" where
  "nullable Fail = False"
| "nullable Eps = True"
| "nullable (Sym P) = False"
| "nullable (Alt r q) = (nullable r \<or> nullable q)"
| "nullable (Seq r q) = (nullable r \<and> nullable q)"
| "nullable (Rep r) = True"

fun deriv :: "char \<Rightarrow> regex \<Rightarrow> regex" where
  "deriv c Fail = Fail"
| "deriv c Eps = Fail"
| "deriv c (Sym P) = (if P c then Eps else Fail)"
| "deriv c (Alt r q) = Alt (deriv c r) (deriv c q)"
| "deriv c (Seq r q) =
     (if nullable r then Alt (Seq (deriv c r) q) (deriv c q) else Seq (deriv c r) q)"
| "deriv c (Rep r) = Seq (deriv c r) (Rep r)"

fun regex_test :: "regex \<Rightarrow> string \<Rightarrow> bool" where
  "regex_test r [] = nullable r"
| "regex_test r (c # s) = regex_test (deriv c r) s"

definition plus1 :: "regex \<Rightarrow> regex" where
  "plus1 r = Seq r (Rep r)"

definition opt :: "regex \<Rightarrow> regex" where
  "opt r = Alt r Eps"

fun upto_times :: "nat \<Rightarrow> regex \<Rightarrow> regex" where
  "upto_times 0 r = Eps"
| "upto_times (Suc n) r = Alt (Seq r (upto_times n r)) Eps"

definition not_space_at :: "char \<Rightarrow> bool" where
  "not_space_at c = (\<not> is_space c \<and> c \<noteq> CHR ''@'')"

text \<open>\<^verbatim>\<open>/^[^\s@]+@[^\s@]+\.[^\s@]+$/\<close>\<close>

definition emailRegex :: regex where
  "emailRegex =
     Seq (plus1 (Sym not_space_at))
       (Seq (Sym (\<lambda>c. c = CHR ''@''))
         (Seq (plus1 (Sym not_space_at))
           (Seq (Sym (\<lambda>c. c = CHR ''.'')) (plus1 (Sym not_space_at)))))"

text \<open>\<^verbatim>\<open>/^[\+]?[1-9][\d]{0,15}$/\<close>\<close>

definition phoneRegex :: regex where
  "phoneRegex =
     Seq (opt (Sym (\<lambda>c. c = CHR ''+'')))
       (Seq (Sym (\<lambda>c. c \<in> set ''123456789'')) (upto_times 15 (Sym is_digit)))"

text \<open>\<^verbatim>\<open>value.replace(/[\s\-\(\)]/g, '')\<close>\<close>

definition strip_phone :: "string \<Rightarrow> string" where
  "strip_phone s = filter (\<lambda>c. \<not> (is_space c \<or> c \<in> set ''-()'')) s"

section \<open>The document\<close>

text \<open>
  Elements are objects with an identity, here a number. The shape of the document is a
  forest of identities: the document tree first, then the subtrees that \<open>remove()\<close> has
  detached (they stay alive as long as a script holds them). The properties of an element
  live in a store indexed by its identity, so a handler that keeps a reference to an
  element sees every later change to it.
\<close>

datatype tree = T (nid: nat) (kids: "tree list")

fun ids :: "tree \<Rightarrow> nat list" where
  "ids (T i ks) = i # concat (map ids ks)"

fun subtrees :: "tree \<Rightarrow> tree list" where
  "subtrees (T i ks) = T i ks # concat (map subtrees ks)"

definition find_tree :: "tree list \<Rightarrow> nat \<Rightarrow> tree option" where
  "find_tree F i = find (\<lambda>t. nid t = i) (concat (map subtrees F))"

definition parentElement :: "tree list \<Rightarrow> nat \<Rightarrow> nat option" where
  "parentElement F i =
     map_option nid (find (\<lambda>t. i \<in> set (map nid (kids t))) (concat (map subtrees F)))"

definition children :: "tree list \<Rightarrow> nat \<Rightarrow> nat list" where
  "children F p = (case find_tree F p of None \<Rightarrow> [] | Some t \<Rightarrow> map nid (kids t))"

text \<open>The descendants of an element in document order, the order of \<open>querySelector\<close>.\<close>

definition descendants :: "tree list \<Rightarrow> nat \<Rightarrow> nat list" where
  "descendants F p = (case find_tree F p of None \<Rightarrow> [] | Some t \<Rightarrow> concat (map ids (kids t)))"

fun prune :: "nat \<Rightarrow> tree \<Rightarrow> tree" where
  "prune i (T j ks) = T j (filter (\<lambda>k. nid k \<noteq> i) (map (prune i) ks))"

fun pruned :: "nat \<Rightarrow> tree \<Rightarrow> tree list" where
  "pruned i (T j ks) = concat (map (\<lambda>k. if nid k = i then [k] else pruned i k) ks)"

text \<open>
  \<open>e.remove()\<close>: the subtree of \<open>e\<close> leaves its parent and becomes a tree of its own; an
  element without a parent is left where it is.
\<close>

definition remove_node :: "tree list \<Rightarrow> nat \<Rightarrow> tree list" where
  "remove_node F i = map (prune i) F @ concat (map (pruned i) F)"

fun appendTo :: "nat \<Rightarrow> tree \<Rightarrow> tree \<Rightarrow> tree" where
  "appendTo p n (T j ks) = (if j = p then T j (ks @ [n]) else T j (map (appendTo p n) ks))"

fun prependTo :: "nat \<Rightarrow> tree \<Rightarrow> tree \<Rightarrow> tree" where
  "prependTo p n (T j ks) = (if j = p then T j (n # ks) else T j (map (prependTo p n) ks))"

text \<open>
  \<open>p.appendChild(n)\<close> and \<open>p.insertBefore(n, p.firstChild)\<close>, for an element \<open>n\<close> that
  \<open>createElement\<close> has just made (the only use the script has for them).
\<close>

definition appendChild :: "tree list \<Rightarrow> nat \<Rightarrow> nat \<Rightarrow> tree list" where
  "appendChild F p n = map (appendTo p (T n [])) F"

definition insertFirst :: "tree list \<Rightarrow> nat \<Rightarrow> nat \<Rightarrow> tree list" where
  "insertFirst F p n = map (prependTo p (T n [])) F"

record einfo =
  tag :: string
  classes :: "string list"
  ftype :: string
  fvalue :: string
  fdefault :: string
  required :: bool
  textContent :: string
  cssText :: string
  innerHTML :: string
  originalText :: "string option"
  translateY :: "rat option"

definition element :: "string \<Rightarrow> einfo" where
  "element t = \<lparr>tag = t, classes = [], ftype = [], fvalue = [], fdefault = [],
     required = False, textContent = [], cssText = [], innerHTML = [],
     originalText = None, translateY = None\<rparr>"

datatype task = ResetForm nat | RestoreButton nat

record page =
  forest :: "tree list"
  info :: "nat \<Rightarrow> einfo"
  nextId :: nat
  clock :: rat
  timers :: "(rat \<times> task) list"
  pageYOffset :: rat
  docScrollTop :: rat
  lastScrollTop :: rat

datatype jserror = TypeError

definition classList_add :: "string \<Rightarrow> string list \<Rightarrow> string list" where
  "classList_add c cs = (if c \<in> set cs then cs else cs @ [c])"

definition classList_remove :: "string \<Rightarrow> string list \<Rightarrow> string list" where
  "classList_remove c cs = removeAll c cs"

definition set_classes :: "page \<Rightarrow> nat \<Rightarrow> (string list \<Rightarrow> string list) \<Rightarrow> page" where
  "set_classes st i f = st\<lparr>info := (info st)(i := (info st i)\<lparr>classes := f (classes (info st i))\<rparr>)\<rparr>"

definition has_class :: "page \<Rightarrow> string \<Rightarrow> nat \<Rightarrow> bool" where
  "has_class st c i = (c \<in> set (classes (info st i)))"

text \<open>\<open>p.querySelector('.c')\<close>: the first descendant of \<open>p\<close> that carries the class.\<close>

definition querySelector :: "page \<Rightarrow> nat \<Rightarrow> string \<Rightarrow> nat option" where
  "querySelector st p c = find (has_class st c) (descendants (forest st) p)"

text \<open>\<open>createElement('div')\<close>: a new identity with the properties of an empty element.\<close>

definition createElement :: "page \<Rightarrow> string \<Rightarrow> nat \<times> page" where
  "createElement st t =
     (nextId st, st\<lparr>nextId := Suc (nextId st), info := (info st)(nextId st := element t)\<rparr>)"

section \<open>Field validation\<close>

definition showFieldError :: "page \<Rightarrow> nat \<Rightarrow> string \<Rightarrow> (jserror + unit) \<times> page" where
  "showFieldError st field message =
     (let st1 = set_classes st field (classList_add ''error'');
          (errorDiv, st2) = createElement st1 ''div'';
          st3 = st2\<lparr>info := (info st2)(errorDiv := (info st2 errorDiv)
                  \<lparr>classes := [''error-message''], textContent := message,
                   cssText := ''color: var(--error); font-size: 0.875rem; margin-top: 0.25rem;''\<rparr>)\<rparr>
      in case parentElement (forest st3) field of
           None \<Rightarrow> (Inl TypeError, st3)
         | Some p \<Rightarrow> (Inr (), st3\<lparr>forest := appendChild (forest st3) p errorDiv\<rparr>))"

definition fail_field :: "page \<Rightarrow> nat \<Rightarrow> string \<Rightarrow> (jserror + bool) \<times> page" where
  "fail_field st field message =
     (case showFieldError st field message of
        (Inl e, st') \<Rightarrow> (Inl e, st')
      | (Inr _, st') \<Rightarrow> (Inr False, st'))"

definition validateField :: "page \<Rightarrow> nat \<Rightarrow> (jserror + bool) \<times> page" where
  "validateField st field =
     (let v = trim (fvalue (info st field));
          fieldType = ftype (info st field);
          isRequired = required (info st field);
          st1 = set_classes st field (classList_remove ''error'')
      in case parentElement (forest st1) field of
           None \<Rightarrow> (Inl TypeError, st1)
         | Some p \<Rightarrow>
             (let st2 = (case querySelector st1 p ''error-message'' of
                           None \<Rightarrow> st1
                         | Some existingError \<Rightarrow>
                             st1\<lparr>forest := remove_node (forest st1) existingError\<rparr>)
              in if isRequired \<and> v = [] then fail_field st2 field ''This field is required''
                 else if fieldType = ''email'' \<and> v \<noteq> [] \<and> \<not> regex_test emailRegex v
                   then fail_field st2 field ''Please enter a valid email address''
                 else if fieldType = ''tel'' \<and> v \<noteq> [] \<and> \<not> regex_test phoneRegex (strip_phone v)
                   then fail_field st2 field ''Please enter a valid phone number''
                 else (Inr True, st2)))"

section \<open>Forms\<close>

definition is_field :: "page \<Rightarrow> nat \<Rightarrow> bool" where
  "is_field st i = (tag (info st i) \<in> set [''input'', ''select'', ''textarea''])"

text \<open>\<open>form.querySelectorAll('input, select, textarea')\<close>, a static list.\<close>

definition form_inputs :: "page \<Rightarrow> nat \<Rightarrow> nat list" where
  "form_inputs st form = filter (is_field st) (descendants (forest st) form)"






definition hideFormSuccess :: "page \<Rightarrow> nat \<Rightarrow> page" where
  "hideFormSuccess st form =
     (case querySelector st form ''form-success'' of
        None \<Rightarrow> st
      | Some successDiv \<Rightarrow> st\<lparr>forest := remove_node (forest st) successDiv\<rparr>)"

text \<open>\<open>form.reset()\<close>: every field of the form goes back to its default value.\<close>

definition form_reset :: "page \<Rightarrow> nat \<Rightarrow> page" where
  "form_reset st form =
     st\<lparr>info := (\<lambda>i. if i \<in> set (form_inputs st form)
                      then (info st i)\<lparr>fvalue := fdefault (info st i)\<rparr> else info st i)\<rparr>"




section \<open>Buttons\<close>



text \<open>The timer callback of a button: an undefined or empty \<open>dataset.originalText\<close> is falsy.\<close>

definition restoreButton :: "nat \<Rightarrow> page \<Rightarrow> page" where
  "restoreButton b st =
     (let st1 = set_classes st b (classList_remove ''loading'')
      in case originalText (info st1 b) of
           None \<Rightarrow> st1
         | Some t \<Rightarrow> if t \<noteq> [] then st1\<lparr>info := (info st1)(b := (info st1 b)\<lparr>innerHTML := t\<rparr>)\<rparr>
                     else st1)"


section \<open>Timers\<close>

fun run_task :: "task \<Rightarrow> page \<Rightarrow> page" where
  "run_task (ResetForm form) st = hideFormSuccess (form_reset st form) form"
| "run_task (RestoreButton b) st = restoreButton b st"


section \<open>Scrolling\<close>

text \<open>
  The header listener reads \<open>window.pageYOffset || document.documentElement.scrollTop\<close>
  and touches \<open>header.classList\<close> whether or not a header was found.
\<close>

definition headerScrollListener :: "nat option \<Rightarrow> page \<Rightarrow> (jserror + unit) \<times> page" where
  "headerScrollListener header st =
     (let scrollTop = (if pageYOffset st \<noteq> 0 then pageYOffset st else docScrollTop st)
      in case header of
           None \<Rightarrow> (Inl TypeError, st)
         | Some h \<Rightarrow>
             (Inr (), (set_classes st h
                (if scrollTop > 50 then classList_add ''scrolled''
                 else classList_remove ''scrolled''))\<lparr>lastScrollTop := scrollTop\<rparr>))"

definition backToTopScrollListener :: "nat \<Rightarrow> page \<Rightarrow> page" where
  "backToTopScrollListener b st =
     set_classes st b
       (if pageYOffset st > 300 then classList_add ''visible'' else classList_remove ''visible'')"

definition heroScrollListener :: "nat \<Rightarrow> page \<Rightarrow> page" where
  "heroScrollListener hero st =
     st\<lparr>info := (info st)(hero := (info st hero)\<lparr>translateY := Some (pageYOffset st * (- (1 / 2)))\<rparr>)\<rparr>"

text \<open>
  What the page-ready handler found: the header, the back-to-top button, the hero
  sections. A scroll event runs the listeners in the order of their registration; an
  exception in one is reported and the next still runs.
\<close>

record refs =
  header :: "nat option"
  backToTopBtn :: "nat option"
  heroSections :: "nat list"

definition scrollEvent :: "refs \<Rightarrow> page \<Rightarrow> jserror list \<times> page" where
  "scrollEvent r st =
     (let (res, st1) = headerScrollListener (header r) st;
          st2 = (case backToTopBtn r of None \<Rightarrow> st1 | Some b \<Rightarrow> backToTopScrollListener b st1);
          st3 = fold heroScrollListener (heroSections r) st2
      in ((case res of Inl e \<Rightarrow> [e] | Inr _ \<Rightarrow> []), st3))"


section \<open>Sample pages\<close>

definition blank :: page where
  "blank = \<lparr>forest = [], info = (\<lambda>_. element []), nextId = 0, clock = 0, timers = [],
     pageYOffset = 0, docScrollTop = 0, lastScrollTop = 0\<rparr>"

text \<open>A body with a header and a back-to-top link, scrolled to offset 120.\<close>

definition scroll_page :: page where
  "scroll_page = blank\<lparr>forest := [T 0 [T 1 [], T 2 []]], nextId := 3,
      info := (\<lambda>_. element [])(0 := element ''body'',
         1 := (element ''header'')\<lparr>classes := [''header'']\<rparr>, 2 := element ''a''),
      pageYOffset := 120, docScrollTop := 120\<rparr>"


text \<open>
  A form (0) with one group (1) that holds one input (2) of the given type, value and
  \<open>required\<close> attribute.
\<close>

definition form_page :: "string \<Rightarrow> string \<Rightarrow> bool \<Rightarrow> page" where
  "form_page ty v req = blank\<lparr>forest := [T 0 [T 1 [T 2 []]]], nextId := 3,
      info := (\<lambda>_. element [])(0 := element ''form'', 1 := element ''div'',
         2 := (element ''input'')\<lparr>ftype := ty, fvalue := v, fdefault := [], required := req\<rparr>)\<rparr>"

text \<open>
  A form (0) with one group (1) that holds a required, empty input (2) followed by a help
  text (3); and the same with a second required, empty input in place of the help text.
\<close>

definition help_page :: page where
  "help_page = blank\<lparr>forest := [T 0 [T 1 [T 2 [], T 3 []]]], nextId := 4,
      info := (\<lambda>_. element [])(0 := element ''form'', 1 := element ''div'',
         2 := (element ''input'')\<lparr>ftype := ''text'', required := True\<rparr>,
         3 := element ''small'')\<rparr>"

definition pair_page :: page where
  "pair_page = blank\<lparr>forest := [T 0 [T 1 [T 2 [], T 3 []]]], nextId := 4,
      info := (\<lambda>_. element [])(0 := element ''form'', 1 := element ''div'',
         2 := (element ''input'')\<lparr>ftype := ''text'', required := True\<rparr>,
         3 := (element ''input'')\<lparr>ftype := ''text'', required := True\<rparr>)\<rparr>"


section \<open>Notions used in the statements\<close>


text \<open>The identities below the top of a tree.\<close>

fun proper :: "tree \<Rightarrow> nat list" where
  "proper (T i ks) = concat (map ids ks)"


text \<open>
  The message of the first rule of \<open>validateField\<close> that a field breaks, if any; the page
  once the old decoration of a field is cleared; the page once a message is shown.
\<close>

definition rule_message :: "einfo \<Rightarrow> string option" where
  "rule_message x =
     (let v = trim (fvalue x)
      in if required x \<and> v = [] then Some ''This field is required''
         else if ftype x = ''email'' \<and> v \<noteq> [] \<and> \<not> regex_test emailRegex v
           then Some ''Please enter a valid email address''
         else if ftype x = ''tel'' \<and> v \<noteq> [] \<and> \<not> regex_test phoneRegex (strip_phone v)
           then Some ''Please enter a valid phone number''
         else None)"

definition clear_error :: "page \<Rightarrow> nat \<Rightarrow> nat \<Rightarrow> page" where
  "clear_error st field p =
     (let st1 = set_classes st field (classList_remove ''error'')
      in case querySelector st1 p ''error-message'' of
           None \<Rightarrow> st1
         | Some existingError \<Rightarrow> st1\<lparr>forest := remove_node (forest st1) existingError\<rparr>)"

definition with_error :: "page \<Rightarrow> nat \<Rightarrow> nat \<Rightarrow> string \<Rightarrow> page" where
  "with_error st field p message =
     (set_classes st field (classList_add ''error''))
       \<lparr>nextId := Suc (nextId st),
        info := (info (set_classes st field (classList_add ''error'')))
          (nextId st := (element ''div'')\<lparr>classes := [''error-message''], textContent := message,
             cssText := ''color: var(--error); font-size: 0.875rem; margin-top: 0.25rem;''\<rparr>),
        forest := appendChild (forest st) p (nextId st)\<rparr>"







text \<open>The parent-child pairs of a tree, each child once and in document order.\<close>

fun edges :: "tree \<Rightarrow> (nat \<times> nat) list" where
  "edges (T i ks) = concat (map (\<lambda>k. (i, nid k) # edges k) ks)"





section \<open>The matcher agrees with the meaning of a pattern\<close>

inductive_cases acc_FailE: "accepts Fail s"
inductive_cases acc_EpsE: "accepts Eps s"
inductive_cases acc_SymE: "accepts (Sym P) s"
inductive_cases acc_AltE: "accepts (Alt r q) s"
inductive_cases acc_SeqE: "accepts (Seq r q) s"

lemma nullable_accepts: "nullable r \<longleftrightarrow> accepts r []"
proof (induction r)
  case (Seq r q)
  show ?case
  proof
    assume "nullable (Seq r q)"
    then have "accepts r []" "accepts q []" using Seq by auto
    then have "accepts (Seq r q) ([] @ [])" by (rule acc_Seq)
    then show "accepts (Seq r q) []" by simp
  next
    assume "accepts (Seq r q) []"
    then show "nullable (Seq r q)" using Seq by (auto elim!: acc_SeqE)
  qed
qed (auto intro: accepts.intros elim: acc_FailE acc_SymE acc_AltE)

lemma Rep_cons:
  "accepts (Rep r) s \<Longrightarrow> s = c # w \<Longrightarrow>
     \<exists>u v. w = u @ v \<and> accepts r (c # u) \<and> accepts (Rep r) v"
proof (induction "Rep r" s arbitrary: w rule: accepts.induct)
  case acc_Rep0
  then show ?case by simp
next
  case (acc_RepS u v)
  show ?case
  proof (cases u)
    case Nil
    then show ?thesis using acc_RepS by simp
  next
    case (Cons a u')
    then show ?thesis using acc_RepS by auto
  qed
qed

lemma deriv_accepts: "accepts (deriv c r) s \<longleftrightarrow> accepts r (c # s)"
proof (induction r arbitrary: s)
  case Fail
  show ?case by (auto elim: acc_FailE)
next
  case Eps
  show ?case by (auto elim: acc_FailE acc_EpsE)
next
  case (Sym P)
  show ?case by (auto elim: acc_FailE acc_EpsE acc_SymE intro: accepts.intros)
next
  case (Alt r q)
  then show ?case by (auto elim!: acc_AltE intro: accepts.intros)
next
  case (Seq r q)
  show ?case
  proof
    assume "accepts (deriv c (Seq r q)) s"
    then consider u v where "s = u @ v" "accepts (deriv c r) u" "accepts q v"
      | "nullable r" "accepts (deriv c q) s"
      by (auto split: if_splits elim!: acc_AltE acc_SeqE)
    then show "accepts (Seq r q) (c # s)"
    proof cases
      case 1
      then have "accepts (Seq r q) ((c # u) @ v)" using Seq by (intro acc_Seq) auto
      then show ?thesis using 1 by simp
    next
      case 2
      then have "accepts (Seq r q) ([] @ (c # s))"
        using Seq by (intro acc_Seq) (auto simp: nullable_accepts)
      then show ?thesis by simp
    qed
  next
    assume "accepts (Seq r q) (c # s)"
    then obtain u v where uv: "c # s = u @ v" "accepts r u" "accepts q v"
      by (auto elim: acc_SeqE)
    show "accepts (deriv c (Seq r q)) s"
    proof (cases u)
      case Nil
      then show ?thesis using uv Seq by (auto simp: nullable_accepts intro: accepts.intros)
    next
      case (Cons a u')
      then have "accepts (Seq (deriv c r) q) (u' @ v)" using uv Seq by (intro acc_Seq) auto
      then show ?thesis using Cons uv by (auto intro: accepts.intros)
    qed
  qed
next
  case (Rep r)
  show ?case
  proof
    assume "accepts (deriv c (Rep r)) s"
    then obtain u v where "s = u @ v" "accepts (deriv c r) u" "accepts (Rep r) v"
      by (auto elim: acc_SeqE)
    then have "accepts (Rep r) ((c # u) @ v)" using Rep by (intro acc_RepS) auto
    then show "accepts (Rep r) (c # s)" using \<open>s = u @ v\<close> by simp
  next
    assume "accepts (Rep r) (c # s)"
    then obtain u v where "s = u @ v" "accepts r (c # u)" "accepts (Rep r) v"
      using Rep_cons by blast
    then show "accepts (deriv c (Rep r)) s" using Rep by (auto intro: accepts.intros)
  qed
qed

lemma regex_test_accepts: "regex_test r s \<longleftrightarrow> accepts r s"
  by (induction s arbitrary: r) (auto simp: nullable_accepts deriv_accepts)


section \<open>Class lists\<close>

lemma classList_add_iff: "c \<in> set (classList_add d cs) \<longleftrightarrow> c = d \<or> c \<in> set cs"
  by (auto simp: classList_add_def)

lemma classList_remove_iff: "c \<in> set (classList_remove d cs) \<longleftrightarrow> c \<noteq> d \<and> c \<in> set cs"
  by (auto simp: classList_remove_def)

section \<open>Scrolling\<close>

lemma hero_classes: "classes (info (heroScrollListener hero st) i) = classes (info st i)"
  by (simp add: heroScrollListener_def)

lemma fold_hero_classes: "classes (info (fold heroScrollListener hs st) i) = classes (info st i)"
  by (induction hs arbitrary: st) (simp_all add: hero_classes)


text \<open>
  C2. With a header and a back-to-top button on the page, after the scroll listeners have
  run at offset \<open>s\<close> the header carries \<open>scrolled\<close> exactly when \<open>s > 50\<close> and the button
  carries \<open>visible\<close> exactly when \<open>s > 300\<close>, and no listener throws. The offset is
  \<open>window.pageYOffset\<close>; \<open>document.documentElement.scrollTop\<close>, which the header listener
  falls back on at offset 0, is the same number or (in quirks mode) 0.
\<close>

theorem scroll_thresholds:
  assumes "header r = Some h" and "backToTopBtn r = Some b"
    and "pageYOffset st = s" and "docScrollTop st = s \<or> docScrollTop st = 0"
  shows "(has_class (snd (scrollEvent r st)) ''scrolled'' h \<longleftrightarrow> 50 < s)
       \<and> (has_class (snd (scrollEvent r st)) ''visible'' b \<longleftrightarrow> 300 < s)
       \<and> fst (scrollEvent r st) = []"
  using assms
  by (auto simp: scrollEvent_def headerScrollListener_def backToTopScrollListener_def
      has_class_def set_classes_def fold_hero_classes classList_add_iff classList_remove_iff
      Let_def)

theorem scroll_thresholds_witness:
  "has_class (snd (scrollEvent \<lparr>header = Some 1, backToTopBtn = Some 2, heroSections = []\<rparr> scroll_page)) ''scrolled'' 1
   \<and> \<not> has_class (snd (scrollEvent \<lparr>header = Some 1, backToTopBtn = Some 2, heroSections = []\<rparr> scroll_page)) ''visible'' 2"
  using scroll_thresholds [of "\<lparr>header = Some 1, backToTopBtn = Some 2, heroSections = []\<rparr>" 1 2 scroll_page 120]
  by (simp add: scroll_page_def blank_def)


text \<open>
  C1. On a page without a header the header listener does not skip its work: every scroll
  event makes it dereference \<open>null\<close>, and the event reports a \<open>TypeError\<close>, whatever the
  offset and whatever else is on the page.
\<close>

theorem header_absent_scroll_throws:
  "fst (scrollEvent (r\<lparr>header := None\<rparr>) st) = [TypeError]"
  by (simp add: scrollEvent_def headerScrollListener_def Let_def)


section \<open>Buttons\<close>




lemma hideFormSuccess_info: "info (hideFormSuccess st f) = info st"
  by (simp add: hideFormSuccess_def split: option.splits)














section \<open>Parents survive a removal\<close>

lemma ids_nid_proper: "ids t = nid t # proper t"
  by (cases t) simp

lemma nid_prune [simp]: "nid (prune e t) = nid t"
  by (cases t) simp

lemma kid_of_subtree_iff:
  "(\<exists>t \<in> set (subtrees u). f \<in> set (map nid (kids t))) \<longleftrightarrow> f \<in> set (proper u)"
proof (induction u)
  case (T i ks)
  have "(\<exists>t \<in> set (subtrees (T i ks)). f \<in> set (map nid (kids t)))
          \<longleftrightarrow> f \<in> nid ` set ks \<or> (\<exists>k \<in> set ks. \<exists>t \<in> set (subtrees k). f \<in> set (map nid (kids t)))"
    by auto
  also have "\<dots> \<longleftrightarrow> f \<in> nid ` set ks \<or> (\<exists>k \<in> set ks. f \<in> set (proper k))"
    using T.IH by blast
  also have "\<dots> \<longleftrightarrow> (\<exists>k \<in> set ks. f \<in> set (ids k))"
    by (auto simp: ids_nid_proper)
  finally show ?case by simp
qed

lemma parentElement_None_iff:
  "parentElement F f = None \<longleftrightarrow> (\<forall>u \<in> set F. f \<notin> set (proper u))"
proof -
  have "parentElement F f = None
          \<longleftrightarrow> \<not> (\<exists>u \<in> set F. \<exists>t \<in> set (subtrees u). f \<in> set (map nid (kids t)))"
    by (auto simp: parentElement_def find_None_iff)
  then show ?thesis using kid_of_subtree_iff by blast
qed

lemma proper_prune:
  "set (proper (prune e (T j ks))) = (\<Union>k \<in> {k \<in> set ks. nid k \<noteq> e}. set (ids (prune e k)))"
  by auto

lemma pruned_kids:
  "set (pruned e (T j ks)) = {k \<in> set ks. nid k = e} \<union> (\<Union>k \<in> {k \<in> set ks. nid k \<noteq> e}. set (pruned e k))"
  by auto

lemma proper_prune_or_pruned:
  "f \<in> set (proper u) \<Longrightarrow> f \<noteq> e \<Longrightarrow>
     f \<in> set (proper (prune e u)) \<or> (\<exists>c \<in> set (pruned e u). f \<in> set (proper c))"
proof (induction u)
  case (T j ks)
  from T.prems(1) obtain k where k: "k \<in> set ks" "f \<in> set (ids k)" by auto
  show ?case
  proof (cases "nid k = e")
    case True
    then have "k \<in> set (pruned e (T j ks))" using k(1) unfolding pruned_kids by blast
    moreover have "f \<in> set (proper k)" using k(2) True T.prems(2) by (simp add: ids_nid_proper)
    ultimately show ?thesis by blast
  next
    case False
    show ?thesis
    proof (cases "f = nid k")
      case True
      then have "f \<in> set (ids (prune e k))" by (simp add: ids_nid_proper)
      then have "f \<in> set (proper (prune e (T j ks)))"
        unfolding proper_prune using k(1) False by blast
      then show ?thesis by blast
    next
      case nontop: False
      then have "f \<in> set (proper k)" using k(2) by (simp add: ids_nid_proper)
      then consider "f \<in> set (proper (prune e k))" | c where "c \<in> set (pruned e k)" "f \<in> set (proper c)"
        using T.IH [OF k(1)] T.prems(2) by blast
      then show ?thesis
      proof cases
        case 1
        then have "f \<in> set (ids (prune e k))" by (simp add: ids_nid_proper)
        then have "f \<in> set (proper (prune e (T j ks)))"
          unfolding proper_prune using k(1) False by blast
        then show ?thesis by blast
      next
        case 2
        then have "c \<in> set (pruned e (T j ks))" unfolding pruned_kids using k(1) False by blast
        then show ?thesis using 2(2) by blast
      qed
    qed
  qed
qed

lemma parentElement_remove_node:
  assumes "parentElement F f \<noteq> None" and "f \<noteq> e"
  shows "parentElement (remove_node F e) f \<noteq> None"
proof -
  from assms(1) obtain u where u: "u \<in> set F" "f \<in> set (proper u)"
    by (auto simp: parentElement_None_iff)
  from proper_prune_or_pruned [OF u(2) assms(2)]
  have "\<exists>w \<in> set (remove_node F e). f \<in> set (proper w)"
    using u(1) by (auto simp: remove_node_def)
  then show ?thesis by (simp add: parentElement_None_iff)
qed


section \<open>What validateField does\<close>

lemma showFieldError_eq:
  "parentElement (forest st) f = Some p \<Longrightarrow>
     showFieldError st f m = (Inr (), with_error st f p m)"
  by (simp add: showFieldError_def createElement_def with_error_def set_classes_def Let_def)

lemma fail_field_eq:
  "parentElement (forest st) f = Some p \<Longrightarrow>
     fail_field st f m = (Inr False, with_error st f p m)"
  by (simp add: fail_field_def showFieldError_eq)

lemma validateField_clear:
  "parentElement (forest st) f = Some p \<Longrightarrow>
     validateField st f =
       (case rule_message (info st f) of
          None \<Rightarrow> (Inr True, clear_error st f p)
        | Some m \<Rightarrow> fail_field (clear_error st f p) f m)"
  by (simp add: validateField_def rule_message_def clear_error_def Let_def set_classes_def)

lemma has_class_remove_error:
  "has_class (set_classes st f (classList_remove ''error'')) ''error-message'' i
     = has_class st ''error-message'' i"
  by (simp add: has_class_def set_classes_def classList_remove_iff)

lemma clear_error_parent:
  assumes "parentElement (forest st) f = Some p" and "\<not> has_class st ''error-message'' f"
  shows "parentElement (forest (clear_error st f p)) f \<noteq> None"
proof (cases "querySelector (set_classes st f (classList_remove ''error'')) p ''error-message''")
  case None
  then show ?thesis using assms(1) by (simp add: clear_error_def set_classes_def)
next
  case (Some e)
  then have "has_class (set_classes st f (classList_remove ''error'')) ''error-message'' e"
    by (auto simp: querySelector_def find_Some_iff)
  then have "f \<noteq> e" using assms(2) by (auto simp: has_class_remove_error)
  then have "parentElement (remove_node (forest st) e) f \<noteq> None"
    using assms(1) by (intro parentElement_remove_node) simp_all
  then show ?thesis using Some by (simp add: clear_error_def set_classes_def)
qed

lemma validateField_eq:
  assumes "parentElement (forest st) f = Some p" and "\<not> has_class st ''error-message'' f"
  shows "\<exists>p'. parentElement (forest (clear_error st f p)) f = Some p'
           \<and> validateField st f =
               (case rule_message (info st f) of
                  None \<Rightarrow> (Inr True, clear_error st f p)
                | Some m \<Rightarrow> (Inr False, with_error (clear_error st f p) f p' m))"
proof -
  obtain p' where p': "parentElement (forest (clear_error st f p)) f = Some p'"
    using clear_error_parent [OF assms] by blast
  show ?thesis
    using p' validateField_clear [OF assms(1)] fail_field_eq [OF p']
    by (auto split: option.splits)
qed

lemma clear_error_nextId: "nextId (clear_error st f p) = nextId st"
  by (simp add: clear_error_def set_classes_def Let_def split: option.splits)

lemma with_error_new:
  "textContent (info (with_error st f p m) (nextId st)) = m
   \<and> classes (info (with_error st f p m) (nextId st)) = [''error-message'']
   \<and> nextId (with_error st f p m) = Suc (nextId st)"
  by (simp add: with_error_def)

lemma validateField_verdict:
  assumes "parentElement (forest st) f = Some p" and "\<not> has_class st ''error-message'' f"
  shows "fst (validateField st f) = Inr (rule_message (info st f) = None)"
    and "rule_message (info st f) = Some m \<Longrightarrow>
           textContent (info (snd (validateField st f)) (nextId st)) = m
           \<and> classes (info (snd (validateField st f)) (nextId st)) = [''error-message'']"
proof -
  obtain p' where eq: "validateField st f =
               (case rule_message (info st f) of
                  None \<Rightarrow> (Inr True, clear_error st f p)
                | Some m \<Rightarrow> (Inr False, with_error (clear_error st f p) f p' m))"
    using validateField_eq [OF assms] by blast
  show "fst (validateField st f) = Inr (rule_message (info st f) = None)"
    by (simp add: eq split: option.splits)
  assume "rule_message (info st f) = Some m"
  then have "snd (validateField st f) = with_error (clear_error st f p) f p' m"
    by (simp add: eq)
  then show "textContent (info (snd (validateField st f)) (nextId st)) = m
           \<and> classes (info (snd (validateField st f)) (nextId st)) = [''error-message'']"
    using with_error_new [of "clear_error st f p" f p' m] by (simp add: clear_error_nextId)
qed


lemma form_page_parent: "parentElement (forest (form_page ty v req)) 2 = Some 1"
  by (simp add: form_page_def blank_def parentElement_def)

lemma form_page_plain: "\<not> has_class (form_page ty v req) c 2"
  by (simp add: form_page_def blank_def has_class_def element_def)

text \<open>
  C5. A field of type \<open>email\<close> that has a parent element and is not itself marked
  \<open>error-message\<close>, with trimmed value \<open>v\<close>. If \<open>v\<close> is not empty, \<open>validateField\<close> returns
  false exactly when \<open>v\<close> does not match the e-mail pattern, and true exactly when it does;
  when it does not match, the new element of class \<open>error-message\<close> reads
  \<open>Please enter a valid email address\<close>. If \<open>v\<close> is empty and the field is not required,
  the field is valid.
\<close>

theorem email_rule:
  assumes "parentElement (forest st) f = Some p" and "\<not> has_class st ''error-message'' f"
    and "ftype (info st f) = ''email''" and "v = trim (fvalue (info st f))"
  shows "(v \<noteq> [] \<longrightarrow>
            (fst (validateField st f) = Inr False \<longleftrightarrow> \<not> accepts emailRegex v)
          \<and> (fst (validateField st f) = Inr True \<longleftrightarrow> accepts emailRegex v)
          \<and> (\<not> accepts emailRegex v \<longrightarrow>
                textContent (info (snd (validateField st f)) (nextId st))
                  = ''Please enter a valid email address''
                \<and> classes (info (snd (validateField st f)) (nextId st)) = [''error-message'']))
       \<and> (v = [] \<and> \<not> required (info st f) \<longrightarrow> fst (validateField st f) = Inr True)"
proof -
  have msg: "rule_message (info st f) =
      (if required (info st f) \<and> v = [] then Some ''This field is required''
       else if v \<noteq> [] \<and> \<not> accepts emailRegex v then Some ''Please enter a valid email address''
       else None)"
    using assms(3,4) by (simp add: rule_message_def regex_test_accepts Let_def)
  show ?thesis
    using validateField_verdict [OF assms(1,2)] msg by (auto split: if_splits)
qed

theorem email_rule_witness:
  "fst (validateField (form_page ''email'' '' bob@example '' False) 2) = Inr False
   \<and> textContent (info (snd (validateField (form_page ''email'' '' bob@example '' False) 2)) 3)
       = ''Please enter a valid email address''
   \<and> fst (validateField (form_page ''email'' ''  '' False) 2) = Inr True"
proof -
  have t1: "trim '' bob@example '' = ''bob@example''" and t2: "trim ''  '' = []"
    by (simp_all add: trim_def is_space_def)
  have n: "\<not> accepts emailRegex ''bob@example''"
    unfolding regex_test_accepts [symmetric] by code_simp
  show ?thesis
    using email_rule [OF form_page_parent form_page_plain, of "''email''" "'' bob@example ''" False "''bob@example''"]
      email_rule [OF form_page_parent form_page_plain, of "''email''" "''  ''" False "[]"] t1 t2 n
    by (simp add: form_page_def blank_def element_def)
qed


text \<open>
  C6. A field of type \<open>tel\<close> (with a parent, not itself marked \<open>error-message\<close>) whose
  trimmed value \<open>v\<close> is not empty: \<open>validateField\<close> returns false exactly when \<open>v\<close> without
  its spaces, hyphens and parentheses does not match the phone pattern, and true exactly
  when it does; when it does not match, the new element of class \<open>error-message\<close> reads
  \<open>Please enter a valid phone number\<close>.
\<close>

theorem phone_rule:
  assumes "parentElement (forest st) f = Some p" and "\<not> has_class st ''error-message'' f"
    and "ftype (info st f) = ''tel''" and "v = trim (fvalue (info st f))" and "v \<noteq> []"
  shows "(fst (validateField st f) = Inr False \<longleftrightarrow> \<not> accepts phoneRegex (strip_phone v))
       \<and> (fst (validateField st f) = Inr True \<longleftrightarrow> accepts phoneRegex (strip_phone v))
       \<and> (\<not> accepts phoneRegex (strip_phone v) \<longrightarrow>
             textContent (info (snd (validateField st f)) (nextId st))
               = ''Please enter a valid phone number''
             \<and> classes (info (snd (validateField st f)) (nextId st)) = [''error-message''])"
proof -
  have msg: "rule_message (info st f) =
      (if \<not> accepts phoneRegex (strip_phone v) then Some ''Please enter a valid phone number''
       else None)"
    using assms(3,4,5) by (simp add: rule_message_def regex_test_accepts Let_def)
  show ?thesis
    using validateField_verdict [OF assms(1,2)] msg by (auto split: if_splits)
qed


theorem phone_rule_witness:
  "fst (validateField (form_page ''tel'' ''+1 (555) 010-9999'' True) 2) = Inr True
   \<and> fst (validateField (form_page ''tel'' ''0155'' True) 2) = Inr False"
proof -
  have t1: "trim ''+1 (555) 010-9999'' = ''+1 (555) 010-9999''" and t2: "trim ''0155'' = ''0155''"
    by (simp_all add: trim_def is_space_def)
  have s1: "strip_phone ''+1 (555) 010-9999'' = ''+15550109999''"
    and s2: "strip_phone ''0155'' = ''0155''"
    by (simp_all add: strip_phone_def is_space_def)
  have y: "accepts phoneRegex ''+15550109999''" and n: "\<not> accepts phoneRegex ''0155''"
    unfolding regex_test_accepts [symmetric] by code_simp+
  show ?thesis
    using phone_rule [OF form_page_parent form_page_plain, of "''tel''" "''+1 (555) 010-9999''" True "''+1 (555) 010-9999''"]
      phone_rule [OF form_page_parent form_page_plain, of "''tel''" "''0155''" True "''0155''"] t1 t2 s1 s2 y n
    by (simp add: form_page_def blank_def element_def)
qed


text \<open>
  C10. One call of \<open>validateField\<close> on a field (with a parent, not itself marked
  \<open>error-message\<close>) makes at most one element and no element other than the new one
  changes its \<open>error-message\<close> mark; the document afterwards is the document without the
  old message, with at most that one new element appended. A required field whose trimmed
  value is empty gets \<open>This field is required\<close>, whatever its type: the e-mail and phone
  rules ask for a non-empty value. The call returns false exactly when one of the three
  rules fails, and it never throws.
\<close>

theorem one_message_first_rule:
  assumes "parentElement (forest st) f = Some p" and "\<not> has_class st ''error-message'' f"
    and "v = trim (fvalue (info st f))" and "st' = snd (validateField st f)"
  shows "(\<forall>i. i \<noteq> nextId st \<longrightarrow>
            has_class st' ''error-message'' i = has_class st ''error-message'' i)
       \<and> nextId st' \<le> Suc (nextId st)
       \<and> (\<exists>F0. (F0 = forest st \<or> (\<exists>e. F0 = remove_node (forest st) e))
                \<and> (forest st' = F0 \<or> (\<exists>p'. forest st' = appendChild F0 p' (nextId st))))
       \<and> (required (info st f) \<and> v = [] \<longrightarrow>
            fst (validateField st f) = Inr False
            \<and> textContent (info st' (nextId st)) = ''This field is required'')
       \<and> (fst (validateField st f) = Inr False \<longleftrightarrow>
            (required (info st f) \<and> v = [])
            \<or> (ftype (info st f) = ''email'' \<and> v \<noteq> [] \<and> \<not> accepts emailRegex v)
            \<or> (ftype (info st f) = ''tel'' \<and> v \<noteq> [] \<and> \<not> accepts phoneRegex (strip_phone v)))
       \<and> (fst (validateField st f) = Inr False \<or> fst (validateField st f) = Inr True)"
proof -
  obtain p' where eq: "validateField st f =
               (case rule_message (info st f) of
                  None \<Rightarrow> (Inr True, clear_error st f p)
                | Some m \<Rightarrow> (Inr False, with_error (clear_error st f p) f p' m))"
    using validateField_eq [OF assms(1,2)] by blast
  have cls: "\<And>i. has_class (clear_error st f p) ''error-message'' i = has_class st ''error-message'' i"
    by (simp add: clear_error_def Let_def has_class_def set_classes_def classList_remove_iff
        split: option.splits)
  have cls': "\<And>i m s. i \<noteq> nextId s \<Longrightarrow>
      has_class (with_error s f p' m) ''error-message'' i = has_class s ''error-message'' i"
    by (simp add: with_error_def has_class_def set_classes_def classList_add_iff)
  have c1: "\<forall>i. i \<noteq> nextId st \<longrightarrow>
            has_class st' ''error-message'' i = has_class st ''error-message'' i"
    using cls cls' [of _ "clear_error st f p"]
    by (auto simp: assms(4) eq clear_error_nextId split: option.splits)
  have c2: "nextId st' \<le> Suc (nextId st)"
    by (simp add: assms(4) eq clear_error_nextId with_error_def split: option.splits)
  have base: "forest (clear_error st f p) = forest st
      \<or> (\<exists>e. forest (clear_error st f p) = remove_node (forest st) e)"
    by (auto simp: clear_error_def Let_def set_classes_def split: option.splits)
  have grow: "forest st' = forest (clear_error st f p)
      \<or> (\<exists>q. forest st' = appendChild (forest (clear_error st f p)) q (nextId st))"
    by (auto simp: assms(4) eq with_error_def clear_error_nextId split: option.splits)
  have c3: "\<exists>F0. (F0 = forest st \<or> (\<exists>e. F0 = remove_node (forest st) e))
                \<and> (forest st' = F0 \<or> (\<exists>p'. forest st' = appendChild F0 p' (nextId st)))"
    using base grow by blast
  have msg: "rule_message (info st f) =
      (if required (info st f) \<and> v = [] then Some ''This field is required''
       else if ftype (info st f) = ''email'' \<and> v \<noteq> [] \<and> \<not> accepts emailRegex v
         then Some ''Please enter a valid email address''
       else if ftype (info st f) = ''tel'' \<and> v \<noteq> [] \<and> \<not> accepts phoneRegex (strip_phone v)
         then Some ''Please enter a valid phone number''
       else None)"
    using assms(3) by (simp add: rule_message_def regex_test_accepts Let_def)
  note verdict = validateField_verdict [OF assms(1,2)]
  have c4: "required (info st f) \<and> v = [] \<longrightarrow>
            fst (validateField st f) = Inr False
            \<and> textContent (info st' (nextId st)) = ''This field is required''"
    using verdict(1) verdict(2) [of "''This field is required''"] msg assms(4) by simp
  have c5: "fst (validateField st f) = Inr False \<longleftrightarrow>
            (required (info st f) \<and> v = [])
            \<or> (ftype (info st f) = ''email'' \<and> v \<noteq> [] \<and> \<not> accepts emailRegex v)
            \<or> (ftype (info st f) = ''tel'' \<and> v \<noteq> [] \<and> \<not> accepts phoneRegex (strip_phone v))"
    using verdict(1) msg by (auto split: if_splits)
  have c6: "fst (validateField st f) = Inr False \<or> fst (validateField st f) = Inr True"
    using verdict(1) by auto
  show ?thesis using c1 c2 c3 c4 c5 c6 by blast
qed

theorem one_message_first_rule_witness:
  "fst (validateField (form_page ''email'' ''  '' True) 2) = Inr False
   \<and> textContent (info (snd (validateField (form_page ''email'' ''  '' True) 2)) 3)
       = ''This field is required''"
proof -
  have t: "trim ''  '' = []" by (simp add: trim_def is_space_def)
  show ?thesis
    using one_message_first_rule [OF form_page_parent form_page_plain, of "[]" "''email''" "''  ''" True
        "snd (validateField (form_page ''email'' ''  '' True) 2)"] t
    by (simp add: form_page_def blank_def element_def)
qed





section \<open>The shape of the document after a removal or an insertion\<close>

lemma prune_fresh: "b \<notin> set (ids u) \<Longrightarrow> prune b u = u"
proof (induction u)
  case (T j ks)
  have "map (prune b) ks = ks" using T by (intro map_idI) auto
  moreover have "filter (\<lambda>k. nid k \<noteq> b) ks = ks"
    using T.prems by (intro filter_True) (auto simp: ids_nid_proper)
  ultimately show ?case by simp
qed

lemma pruned_fresh: "b \<notin> set (ids u) \<Longrightarrow> pruned b u = []"
proof (induction u)
  case (T j ks)
  have "\<And>k. k \<in> set ks \<Longrightarrow> (if nid k = b then [k] else pruned b k) = []"
    using T by (auto simp: ids_nid_proper)
  then show ?case by (simp add: concat_eq_Nil_conv)
qed

lemma set_ids_remove_node_tree:
  "set (ids (prune e u)) \<union> (\<Union>c \<in> set (pruned e u). set (ids c)) = set (ids u)"
proof (induction u)
  case (T j ks)
  have "\<And>k. k \<in> set ks \<Longrightarrow>
      (if nid k \<noteq> e then set (ids (prune e k)) else {})
        \<union> (\<Union>c \<in> set (if nid k = e then [k] else pruned e k). set (ids c)) = set (ids k)"
    using T.IH by auto
  then have "(\<Union>k \<in> set ks. (if nid k \<noteq> e then set (ids (prune e k)) else {})
        \<union> (\<Union>c \<in> set (if nid k = e then [k] else pruned e k). set (ids c)))
      = (\<Union>k \<in> set ks. set (ids k))"
    by simp
  moreover have "set (ids (prune e (T j ks))) \<union> (\<Union>c \<in> set (pruned e (T j ks)). set (ids c))
      = insert j (\<Union>k \<in> set ks. (if nid k \<noteq> e then set (ids (prune e k)) else {})
        \<union> (\<Union>c \<in> set (if nid k = e then [k] else pruned e k). set (ids c)))"
    by (auto split: if_splits)
  ultimately show ?case by simp
qed

lemma set_ids_remove_node:
  "set (concat (map ids (remove_node F e))) = set (concat (map ids F))"
proof -
  have "set (concat (map ids (remove_node F e)))
      = (\<Union>u \<in> set F. set (ids (prune e u)) \<union> (\<Union>c \<in> set (pruned e u). set (ids c)))"
    by (auto simp: remove_node_def)
  then show ?thesis using set_ids_remove_node_tree by simp
qed


lemma ids_appendTo_upper:
  "x \<in> set (ids (appendTo p n u)) \<Longrightarrow> x \<in> set (ids u) \<or> x \<in> set (ids n)"
  by (induction u) (auto split: if_splits)

lemma ids_prependTo_lower: "x \<in> set (ids u) \<Longrightarrow> x \<in> set (ids (prependTo p n u))"
  by (induction u) auto




lemma map_nid_subtrees: "map nid (subtrees u) = ids u"
  by (induction u) (simp add: map_concat comp_def cong: map_cong)

lemma find_append_cases:
  "find P (xs @ ys) = (case find P xs of None \<Rightarrow> find P ys | Some x \<Rightarrow> Some x)"
  by (induction xs) auto



lemma find_tree_appendTo:
  "find (\<lambda>t. nid t = p) (subtrees (appendTo p n u))
     = map_option (\<lambda>t. T (nid t) (kids t @ [n])) (find (\<lambda>t. nid t = p) (subtrees u))"
proof (induction u)
  case (T j ks)
  show ?case
  proof (cases "j = p")
    case True
    then show ?thesis by simp
  next
    case False
    have "find (\<lambda>t. nid t = p) (concat (map subtrees (map (appendTo p n) xs)))
        = map_option (\<lambda>t. T (nid t) (kids t @ [n])) (find (\<lambda>t. nid t = p) (concat (map subtrees xs)))"
      if "set xs \<subseteq> set ks" for xs
      using that
    proof (induction xs)
      case Nil
      then show ?case by simp
    next
      case (Cons k xs)
      then show ?case using T.IH [of k]
        by (simp add: find_append_cases split: option.splits)
    qed
    then show ?thesis using False by simp
  qed
qed

lemma find_tree_appendChild:
  "find_tree (appendChild F p n) p
     = map_option (\<lambda>t. T (nid t) (kids t @ [T n []])) (find_tree F p)"
  unfolding find_tree_def appendChild_def
  by (induction F) (simp_all add: find_append_cases find_tree_appendTo split: option.splits)

lemma subtree_ids: "t \<in> set (subtrees u) \<Longrightarrow> set (ids t) \<subseteq> set (ids u)"
  by (induction u) auto

lemma find_SomeD: "find P xs = Some x \<Longrightarrow> P x \<and> x \<in> set xs"
  by (induction xs) (auto split: if_splits)

lemma find_tree_SomeD:
  "find_tree F p = Some t \<Longrightarrow> nid t = p \<and> (\<exists>u \<in> set F. t \<in> set (subtrees u))"
  using find_SomeD [of "\<lambda>t. nid t = p" "concat (map subtrees F)" t]
  by (auto simp: find_tree_def)

lemma find_tree_Some_ids:
  assumes "find_tree F p = Some t"
  shows "nid t = p \<and> set (ids t) \<subseteq> set (concat (map ids F))"
  using find_tree_SomeD [OF assms] subtree_ids by fastforce

lemma find_tree_None_iff: "find_tree F p = None \<longleftrightarrow> p \<notin> set (concat (map ids F))"
proof -
  have "map nid (concat (map subtrees F)) = concat (map ids F)"
    by (simp add: map_concat comp_def map_nid_subtrees)
  then have "nid ` set (concat (map subtrees F)) = set (concat (map ids F))"
    by (metis set_map)
  then have "p \<in> set (concat (map ids F)) \<longleftrightarrow> (\<exists>t \<in> set (concat (map subtrees F)). nid t = p)"
    by (metis (no_types, lifting) image_iff)
  then show ?thesis unfolding find_tree_def find_None_iff by blast
qed

lemma nid_appendTo [simp]: "nid (appendTo p n u) = nid u"
  by (cases u) simp

lemma nid_prependTo [simp]: "nid (prependTo p n u) = nid u"
  by (cases u) simp

lemma prune_prependTo_fresh:
  "b \<notin> set (ids u) \<Longrightarrow> prune b (prependTo p (T b []) u) = u"
proof (induction u)
  case (T j ks)
  have kids: "\<And>k. k \<in> set ks \<Longrightarrow> b \<notin> set (ids k)" using T.prems by auto
  show ?case
  proof (cases "j = p")
    case True
    have "map (prune b) ks = ks" using kids by (intro map_idI) (simp add: prune_fresh)
    moreover have "filter (\<lambda>k. nid k \<noteq> b) ks = ks"
      using kids by (intro filter_True) (auto simp: ids_nid_proper)
    ultimately show ?thesis using True by simp
  next
    case False
    have "map (prune b \<circ> prependTo p (T b [])) ks = ks" using kids T.IH by (intro map_idI) simp
    moreover have "filter (\<lambda>k. nid k \<noteq> b) ks = ks"
      using kids by (intro filter_True) (auto simp: ids_nid_proper)
    ultimately show ?thesis using False by simp
  qed
qed

lemma pruned_prependTo_fresh:
  "b \<notin> set (ids u) \<Longrightarrow> set (pruned b (prependTo p (T b []) u)) \<subseteq> {T b []}"
proof (induction u)
  case (T j ks)
  have kids: "\<And>k. k \<in> set ks \<Longrightarrow> b \<notin> set (ids k)" using T.prems by auto
  show ?case
  proof (cases "j = p")
    case True
    then show ?thesis using kids by (auto simp: pruned_fresh ids_nid_proper split: if_splits)
  next
    case False
    then show ?thesis using kids T.IH
      by (auto simp: ids_nid_proper split: if_splits)
  qed
qed


section \<open>Submitting a form\<close>

lemma rule_message_classes [simp]: "rule_message (x\<lparr>classes := c\<rparr>) = rule_message x"
  by (simp add: rule_message_def Let_def cong: if_cong)

lemma clear_error_info:
  "info (clear_error st f p)
     = (info st)(f := (info st f)\<lparr>classes := classList_remove ''error'' (classes (info st f))\<rparr>)"
  by (simp add: clear_error_def set_classes_def Let_def split: option.splits)



lemma with_error_info:
  "info (with_error s f p m)
     = ((info s)(f := (info s f)\<lparr>classes := classList_add ''error'' (classes (info s f))\<rparr>))
         (nextId s := (element ''div'')\<lparr>classes := [''error-message''], textContent := m,
             cssText := ''color: var(--error); font-size: 0.875rem; margin-top: 0.25rem;''\<rparr>)"
  by (simp add: with_error_def set_classes_def)

lemma with_error_rest:
  "forest (with_error s f p m) = appendChild (forest s) p (nextId s)
   \<and> nextId (with_error s f p m) = Suc (nextId s)
   \<and> clock (with_error s f p m) = clock s \<and> timers (with_error s f p m) = timers s"
  by (simp add: with_error_def set_classes_def)








lemma proper_kids: "proper t = concat (map ids (kids t))"
  by (cases t) simp

lemma subtree_proper: "t \<in> set (subtrees u) \<Longrightarrow> set (proper t) \<subseteq> set (proper u)"
proof (induction u)
  case (T j ks)
  show ?case
  proof (cases "t = T j ks")
    case True
    then show ?thesis by simp
  next
    case False
    then obtain k where k: "k \<in> set ks" "t \<in> set (subtrees k)" using T.prems by auto
    then have "set (proper t) \<subseteq> set (ids k)"
      using T.IH [OF k] by (auto simp: ids_nid_proper)
    then show ?thesis using k(1) by auto
  qed
qed

lemma descendants_below:
  assumes "x \<in> set (descendants F p)"
  shows "x \<in> set (concat (map ids F)) \<and> parentElement F x \<noteq> None"
proof -
  obtain t where t: "find_tree F p = Some t" "x \<in> set (proper t)"
  proof (cases "find_tree F p")
    case None
    then show ?thesis using assms by (simp add: descendants_def)
  next
    case (Some t)
    then have "x \<in> set (proper t)" using assms by (simp add: descendants_def proper_kids)
    then show ?thesis using Some that by blast
  qed
  then obtain u where u: "u \<in> set F" "t \<in> set (subtrees u)"
    using find_tree_SomeD by blast
  then have "x \<in> set (proper u)" using subtree_proper t(2) by blast
  then show ?thesis using u(1) by (auto simp: parentElement_None_iff ids_nid_proper)
qed




lemma remove_inserted:
  assumes "\<forall>i \<in> set (concat (map ids F)). i \<noteq> b"
  shows "\<exists>Z. remove_node (insertFirst F p b) b = F @ Z \<and> set Z \<subseteq> {T b []}"
proof -
  have fresh: "\<And>u. u \<in> set F \<Longrightarrow> b \<notin> set (ids u)" using assms by auto
  have "map (prune b) (map (prependTo p (T b [])) F) = F"
    using fresh by (simp add: map_idI prune_prependTo_fresh)
  moreover have "set (concat (map (pruned b) (map (prependTo p (T b [])) F))) \<subseteq> {T b []}"
    using fresh pruned_prependTo_fresh by fastforce
  ultimately show ?thesis by (simp add: remove_node_def insertFirst_def)
qed

lemma find_tree_append_left:
  "find_tree F p = Some t \<Longrightarrow> find_tree (F @ Z) p = Some t"
  by (simp add: find_tree_def find_append_cases)

lemma hide_inserted:
  assumes fresh: "\<forall>i \<in> set (concat (map ids F)). i \<noteq> b"
    and form: "form \<in> set (concat (map ids F))"
    and F': "F' = remove_node (insertFirst F form b) b"
  shows "descendants F' form = descendants F form \<and> b \<notin> set (descendants F' form)
       \<and> parentElement F' b = None"
proof -
  obtain Z where Z: "F' = F @ Z" "set Z \<subseteq> {T b []}"
    using remove_inserted [OF fresh] F' by blast
  obtain t where t: "find_tree F form = Some t"
    using form find_tree_None_iff [of F form] by auto
  have d: "descendants F' form = descendants F form"
    using find_tree_append_left [OF t] by (simp add: Z(1) descendants_def t)
  have nb: "b \<notin> set (descendants F form)"
    using descendants_below [of b F form] fresh by blast
  have "\<forall>u \<in> set F'. b \<notin> set (proper u)"
  proof
    fix u assume "u \<in> set F'"
    then consider "u \<in> set F" | "u = T b []" using Z by auto
    then show "b \<notin> set (proper u)"
    proof cases
      case 1
      then show ?thesis using fresh by (auto simp: ids_nid_proper)
    next
      case 2
      then show ?thesis by simp
    qed
  qed
  then show ?thesis using d nb by (simp add: parentElement_None_iff)
qed





section \<open>Documents whose elements are all different\<close>

lemma distinct_concat_elem: "distinct (concat xss) \<Longrightarrow> xs \<in> set xss \<Longrightarrow> distinct xs"
  by (induction xss) auto

lemma distinct_concat_sub:
  assumes "distinct (concat (map f xs))"
    and "\<And>x. x \<in> set xs \<Longrightarrow> distinct (g x) \<and> set (g x) \<subseteq> set (f x)"
  shows "distinct (concat (map g xs))"
  using assms
proof (induction xs)
  case Nil
  then show ?case by simp
next
  case (Cons x xs)
  have d: "distinct (f x)" "distinct (concat (map f xs))"
    "set (f x) \<inter> set (concat (map f xs)) = {}"
    using Cons.prems(1) by auto
  have "distinct (concat (map g xs))" using Cons.IH d(2) Cons.prems(2) by simp
  moreover have "distinct (g x)" using Cons.prems(2) by simp
  moreover have "set (g x) \<subseteq> set (f x)" using Cons.prems(2) by simp
  moreover have "set (concat (map g xs)) \<subseteq> set (concat (map f xs))"
    using Cons.prems(2) by fastforce
  ultimately show ?case using d(3) by auto
qed

lemma map_snd_edges: "map snd (edges u) = proper u"
  by (induction u) (simp add: map_concat comp_def ids_nid_proper cong: map_cong)

lemma edge_of_kid:
  "t \<in> set (subtrees u) \<Longrightarrow> k \<in> set (kids t) \<Longrightarrow> (nid t, nid k) \<in> set (edges u)"
proof (induction u)
  case (T i ks)
  show ?case
  proof (cases "t = T i ks")
    case True
    then show ?thesis using T.prems(2) by auto
  next
    case False
    then obtain c where c: "c \<in> set ks" "t \<in> set (subtrees c)" using T.prems(1) by auto
    then have "(nid t, nid k) \<in> set (edges c)" using T.IH T.prems(2) by blast
    then show ?thesis using c(1) by auto
  qed
qed

lemma snd_determines:
  "distinct (map snd es) \<Longrightarrow> (a, c) \<in> set es \<Longrightarrow> (b, c) \<in> set es \<Longrightarrow> a = b"
  by (induction es) (auto simp: rev_image_eqI)

lemma parent_unique:
  assumes d: "distinct (concat (map ids F))"
    and t: "u \<in> set F" "t \<in> set (subtrees u)" "k \<in> set (kids t)"
    and t': "u' \<in> set F" "t' \<in> set (subtrees u')" "k' \<in> set (kids t')"
    and same: "nid k = nid k'"
  shows "nid t = nid t'"
proof -
  let ?E = "concat (map edges F)"
  have "\<And>x. x \<in> set F \<Longrightarrow> distinct (proper x) \<and> set (proper x) \<subseteq> set (ids x)"
  proof -
    fix x assume "x \<in> set F"
    then have "distinct (ids x)" using d distinct_concat_elem by fastforce
    then show "distinct (proper x) \<and> set (proper x) \<subseteq> set (ids x)"
      by (auto simp: ids_nid_proper)
  qed
  then have "distinct (concat (map proper F))" using distinct_concat_sub [OF d] by blast
  moreover have "map snd ?E = concat (map proper F)"
    by (simp add: map_concat comp_def map_snd_edges)
  ultimately have dE: "distinct (map snd ?E)" by simp
  have "(nid t, nid k) \<in> set ?E" using edge_of_kid [OF t(2,3)] t(1) by auto
  moreover have "(nid t', nid k) \<in> set ?E" using edge_of_kid [OF t'(2,3)] t'(1) same by auto
  ultimately show ?thesis using snd_determines [OF dE] by blast
qed

lemma subtree_unique:
  assumes d: "distinct (concat (map ids F))"
    and "t \<in> set (concat (map subtrees F))" and "t' \<in> set (concat (map subtrees F))"
    and "nid t = nid t'"
  shows "t = t'"
proof -
  have "map nid (concat (map subtrees F)) = concat (map ids F)"
    by (simp add: map_concat comp_def map_nid_subtrees)
  then have "inj_on nid (set (concat (map subtrees F)))"
    using d by (metis distinct_map)
  then show ?thesis using assms(2,3,4) unfolding inj_on_def by blast
qed

lemma subtrees_trans:
  "t \<in> set (subtrees c) \<Longrightarrow> c \<in> set (subtrees u) \<Longrightarrow> t \<in> set (subtrees u)"
proof (induction u)
  case (T i ks)
  show ?case
  proof (cases "c = T i ks")
    case True
    then show ?thesis using T.prems(1) by simp
  next
    case False
    then obtain k where k: "k \<in> set ks" "c \<in> set (subtrees k)" using T.prems(2) by auto
    then have "t \<in> set (subtrees k)" using T.IH T.prems(1) by blast
    then show ?thesis using k(1) by auto
  qed
qed

lemma subtree_distinct:
  "t \<in> set (subtrees u) \<Longrightarrow> distinct (ids u) \<Longrightarrow> distinct (ids t)"
proof (induction u)
  case (T i ks)
  show ?case
  proof (cases "t = T i ks")
    case True
    then show ?thesis using T.prems(2) by simp
  next
    case False
    then obtain k where k: "k \<in> set ks" "t \<in> set (subtrees k)" using T.prems(1) by auto
    have "distinct (concat (map ids ks))" using T.prems(2) by simp
    then have "distinct (ids k)" using k(1) distinct_concat_elem by fastforce
    then show ?thesis using T.IH k by blast
  qed
qed

lemma subtrees_prune:
  "s \<in> set (subtrees (prune e u)) \<Longrightarrow> \<exists>t0 \<in> set (subtrees u). s = prune e t0"
proof (induction u)
  case (T i ks)
  show ?case
  proof (cases "s = prune e (T i ks)")
    case True
    then show ?thesis by auto
  next
    case False
    then obtain k where k: "k \<in> set ks" "s \<in> set (subtrees (prune e k))"
      using T.prems by auto
    then obtain t0 where "t0 \<in> set (subtrees k)" "s = prune e t0" using T.IH by blast
    then show ?thesis using k(1) by auto
  qed
qed

lemma pruned_sub: "c \<in> set (pruned e u) \<Longrightarrow> c \<in> set (subtrees u) \<and> nid c = e"
proof (induction u)
  case (T i ks)
  then obtain k where k: "k \<in> set ks" "c \<in> set (if nid k = e then [k] else pruned e k)"
    by auto
  show ?case
  proof (cases "nid k = e")
    case True
    then have "c = k" using k(2) by simp
    then have "c \<in> set (subtrees k)" by (cases k) simp
    then show ?thesis using k(1) True \<open>c = k\<close> by auto
  next
    case False
    then have "c \<in> set (subtrees k) \<and> nid c = e" using T.IH k by simp
    then show ?thesis using k(1) by auto
  qed
qed

lemma kids_prune:
  "k' \<in> set (kids (prune e t0)) \<Longrightarrow> \<exists>k \<in> set (kids t0). nid k = nid k'"
  by (cases t0) auto

lemma removed_subtree:
  assumes "s \<in> set (concat (map subtrees (remove_node F e)))"
  shows "(\<exists>u \<in> set F. \<exists>t0 \<in> set (subtrees u). s = prune e t0)
       \<or> (\<exists>u \<in> set F. \<exists>c \<in> set (pruned e u). s \<in> set (subtrees c))"
proof -
  from assms consider u where "u \<in> set F" "s \<in> set (subtrees (prune e u))"
    | u c where "u \<in> set F" "c \<in> set (pruned e u)" "s \<in> set (subtrees c)"
    unfolding remove_node_def by auto
  then show ?thesis
  proof cases
    case 1
    then show ?thesis using subtrees_prune by blast
  next
    case 2
    then show ?thesis by blast
  qed
qed

lemma parentElement_SomeD:
  "parentElement F f = Some p \<Longrightarrow>
     \<exists>u \<in> set F. \<exists>t \<in> set (subtrees u). \<exists>k \<in> set (kids t). nid t = p \<and> nid k = f"
proof -
  assume "parentElement F f = Some p"
  then obtain t where "find (\<lambda>t. f \<in> set (map nid (kids t))) (concat (map subtrees F)) = Some t"
    "nid t = p"
    by (auto simp: parentElement_def)
  then have "f \<in> set (map nid (kids t))" "t \<in> set (concat (map subtrees F))"
    using find_SomeD [of "\<lambda>t. f \<in> set (map nid (kids t))"] by blast+
  then show ?thesis using \<open>nid t = p\<close> by auto
qed

lemma parent_same:
  assumes d: "distinct (concat (map ids F))"
    and p: "parentElement F f = Some p" and ne: "f \<noteq> e"
  shows "parentElement (remove_node F e) f = Some p"
proof -
  obtain u t k where t: "u \<in> set F" "t \<in> set (subtrees u)" "k \<in> set (kids t)"
    "nid t = p" "nid k = f"
    using parentElement_SomeD [OF p] by blast
  have "parentElement (remove_node F e) f \<noteq> None"
    using parentElement_remove_node [OF _ ne] p by simp
  then obtain q where q: "parentElement (remove_node F e) f = Some q" by blast
  then obtain u2 s k2 where s: "u2 \<in> set (remove_node F e)" "s \<in> set (subtrees u2)"
    "k2 \<in> set (kids s)" "nid s = q" "nid k2 = f"
    using parentElement_SomeD by blast
  then have "s \<in> set (concat (map subtrees (remove_node F e)))" by auto
  then consider u0 t0 where "u0 \<in> set F" "t0 \<in> set (subtrees u0)" "s = prune e t0"
    | u0 c where "u0 \<in> set F" "c \<in> set (pruned e u0)" "s \<in> set (subtrees c)"
    using removed_subtree by blast
  then have "q = p"
  proof cases
    case 1
    obtain k0 where k0: "k0 \<in> set (kids t0)" "nid k0 = nid k2"
      using kids_prune s(3) 1(3) by blast
    have "nid t0 = nid t"
      using parent_unique [OF d 1(1,2) k0(1) t(1,2,3)] k0(2) s(5) t(5) by simp
    then show ?thesis using 1(3) s(4) t(4) by simp
  next
    case 2
    have "s \<in> set (subtrees u0)" using subtrees_trans 2(2,3) pruned_sub by blast
    then have "nid s = nid t"
      using parent_unique [OF d 2(1) _ s(3) t(1,2,3)] s(5) t(5) by simp
    then show ?thesis using s(4) t(4) by simp
  qed
  then show ?thesis using q by simp
qed

lemma ids_prune_subset: "set (ids (prune e u)) \<subseteq> set (ids u)"
  using set_ids_remove_node_tree [of e u] by blast

lemma proper_prune_without: "e \<notin> set (proper (prune e u))"
proof (induction u)
  case (T i ks)
  show ?case
  proof
    assume "e \<in> set (proper (prune e (T i ks)))"
    then obtain k where k: "k \<in> set ks" "nid k \<noteq> e" "e \<in> set (ids (prune e k))"
      unfolding proper_prune by blast
    then have "e \<in> set (proper (prune e k))" by (simp add: ids_nid_proper)
    then show False using T.IH k(1) by blast
  qed
qed

lemma proper_prune_subset: "set (proper (prune e u)) \<subseteq> set (proper u) - {e}"
proof -
  have "set (proper (prune e u)) \<subseteq> set (proper u)"
  proof (cases u)
    case (T i ks)
    show ?thesis unfolding T proper_prune using ids_prune_subset by fastforce
  qed
  then show ?thesis using proper_prune_without [of e u] by blast
qed

lemma find_tree_removed:
  assumes d: "distinct (concat (map ids F))"
    and t: "find_tree F p = Some t" and e: "e \<in> set (proper t)"
  shows "find_tree (remove_node F e) p = Some (prune e t)"
proof -
  obtain u where u: "u \<in> set F" "t \<in> set (subtrees u)" and nt: "nid t = p"
    using find_tree_SomeD [OF t] by blast
  have tin: "t \<in> set (concat (map subtrees F))" using u by auto
  have "p \<in> set (concat (map ids F))" using find_tree_None_iff [of F p] t by auto
  then have "p \<in> set (concat (map ids (remove_node F e)))" by (simp only: set_ids_remove_node)
  then obtain s where s: "find_tree (remove_node F e) p = Some s"
    using find_tree_None_iff [of "remove_node F e" p] by auto
  then obtain u2 where s2: "u2 \<in> set (remove_node F e)" "s \<in> set (subtrees u2)" and ns: "nid s = p"
    using find_tree_SomeD by blast
  then have "s \<in> set (concat (map subtrees (remove_node F e)))" by auto
  then consider u0 t0 where "u0 \<in> set F" "t0 \<in> set (subtrees u0)" "s = prune e t0"
    | u0 c where "u0 \<in> set F" "c \<in> set (pruned e u0)" "s \<in> set (subtrees c)"
    using removed_subtree by blast
  then have "s = prune e t"
  proof cases
    case 1
    have "t0 \<in> set (concat (map subtrees F))" using 1(1,2) by auto
    moreover have "nid t0 = nid t" using 1(3) ns nt by simp
    ultimately have "t0 = t" using subtree_unique [OF d _ tin] by blast
    then show ?thesis using 1(3) by simp
  next
    case 2
    have c: "c \<in> set (subtrees u0)" "nid c = e" using pruned_sub 2(2) by blast+
    have "s \<in> set (subtrees u0)" using subtrees_trans 2(3) c(1) by blast
    then have "s \<in> set (concat (map subtrees F))" using 2(1) by auto
    then have "s = t" using subtree_unique [OF d _ tin] ns nt by simp
    then have "set (proper t) \<subseteq> set (proper c)" using subtree_proper 2(3) by blast
    then have "e \<in> set (proper c)" using e by blast
    then have "\<not> distinct (ids c)" using c(2) by (simp add: ids_nid_proper)
    moreover have "distinct (ids u0)" using d 2(1) distinct_concat_elem by fastforce
    ultimately show ?thesis using subtree_distinct c(1) by blast
  qed
  then show ?thesis using s by simp
qed

section \<open>Where the message goes\<close>

lemma clear_error_class:
  "has_class (clear_error st f p) ''error-message'' i = has_class st ''error-message'' i"
  by (simp add: has_class_def clear_error_info classList_remove_iff)

lemma with_error_class:
  "i \<noteq> nextId s \<Longrightarrow>
     has_class (with_error s f p m) ''error-message'' i = has_class s ''error-message'' i"
  by (simp add: has_class_def with_error_info classList_add_iff)

lemma with_error_new_class: "has_class (with_error s f p m) ''error-message'' (nextId s)"
  by (simp add: has_class_def with_error_info)

lemma at_most_one: "length xs \<le> 1 \<Longrightarrow> a \<in> set xs \<Longrightarrow> b \<in> set xs \<Longrightarrow> a = b"
  by (cases xs) auto

lemma find_None_filter: "find P xs = None \<Longrightarrow> filter P xs = []"
  by (simp add: find_None_iff filter_empty_conv)

lemma removed_no_parent:
  assumes d: "distinct (concat (map ids F))"
  shows "parentElement (remove_node F e) e = None"
  unfolding parentElement_None_iff
proof
  fix u assume "u \<in> set (remove_node F e)"
  then consider u0 where "u0 \<in> set F" "u = prune e u0"
    | u0 where "u0 \<in> set F" "u \<in> set (pruned e u0)"
    unfolding remove_node_def by auto
  then show "e \<notin> set (proper u)"
  proof cases
    case 1
    then show ?thesis using proper_prune_without by simp
  next
    case 2
    then have c: "u \<in> set (subtrees u0)" "nid u = e" using pruned_sub by blast+
    have "distinct (ids u0)" using d 2(1) distinct_concat_elem by fastforce
    then have "distinct (ids u)" using subtree_distinct c(1) by blast
    then show ?thesis using c(2) by (simp add: ids_nid_proper)
  qed
qed

lemma removed_not_below:
  assumes "distinct (concat (map ids F))"
  shows "e \<notin> set (descendants (remove_node F e) p)"
  using removed_no_parent [OF assms, of e] descendants_below by blast

lemma proper_appendTo_upper:
  "x \<in> set (proper (appendTo p n u)) \<Longrightarrow> x \<in> set (proper u) \<or> x \<in> set (ids n)"
proof (cases u)
  case (T j ks)
  assume x: "x \<in> set (proper (appendTo p n u))"
  show ?thesis
  proof (cases "j = p")
    case True
    then show ?thesis using x T by auto
  next
    case False
    then obtain k where "k \<in> set ks" "x \<in> set (ids (appendTo p n k))" using x T by auto
    then show ?thesis using T ids_appendTo_upper [of x p n k] by auto
  qed
qed

lemma no_parent_appendChild:
  assumes "parentElement F x = None" and "x \<noteq> n"
  shows "parentElement (appendChild F p n) x = None"
  unfolding parentElement_None_iff
proof
  fix u assume "u \<in> set (appendChild F p n)"
  then obtain u0 where u0: "u0 \<in> set F" "u = appendTo p (T n []) u0"
    unfolding appendChild_def by auto
  have "x \<notin> set (proper u0)" using assms(1) u0(1) by (simp add: parentElement_None_iff)
  then show "x \<notin> set (proper u)"
    using proper_appendTo_upper [of x p "T n []" u0] assms(2) u0(2) by auto
qed

lemma clear_error_forest_eq:
  "forest (clear_error st f p) =
     (case querySelector st p ''error-message'' of
        None \<Rightarrow> forest st
      | Some e \<Rightarrow> remove_node (forest st) e)"
proof -
  let ?s1 = "set_classes st f (classList_remove ''error'')"
  have "has_class ?s1 ''error-message'' = has_class st ''error-message''"
    by (rule ext) (simp add: has_class_remove_error)
  moreover have "forest ?s1 = forest st" by (simp add: set_classes_def)
  ultimately have "querySelector ?s1 p ''error-message'' = querySelector st p ''error-message''"
    by (simp add: querySelector_def)
  then show ?thesis
    using \<open>forest ?s1 = forest st\<close>
    by (simp add: clear_error_def Let_def split: option.splits)
qed

lemma fail_field_cases:
  "fail_field s f m =
     (case parentElement (forest s) f of
        None \<Rightarrow> (Inl TypeError, snd (fail_field s f m))
      | Some p' \<Rightarrow> (Inr False, with_error s f p' m))"
  by (auto simp: fail_field_def showFieldError_def createElement_def with_error_def
      set_classes_def Let_def split: option.splits)

lemma fail_field_throw:
  "parentElement (forest s) f = None \<Longrightarrow> forest (snd (fail_field s f m)) = forest s"
  by (auto simp: fail_field_def showFieldError_def createElement_def with_error_def
      set_classes_def Let_def split: option.splits)

text \<open>The document once the old message is gone, and what has been removed.\<close>

lemma cleared_document:
  assumes d: "distinct (concat (map ids F))"
    and t: "find_tree F p = Some t"
    and q: "find E (descendants F p) = Some e"
  shows "children (remove_node F e) p = removeAll e (children F p)"
    and "set (descendants (remove_node F e) p) \<subseteq> set (descendants F p) - {e}"
    and "find_tree (remove_node F e) p \<noteq> None"
proof -
  have e: "e \<in> set (descendants F p)" using q find_SomeD by fastforce
  then have et: "e \<in> set (proper t)" using t by (simp add: descendants_def proper_kids)
  have f1: "find_tree (remove_node F e) p = Some (prune e t)"
    using find_tree_removed [OF d t et] .
  then show "find_tree (remove_node F e) p \<noteq> None" by simp
  have "kids (prune e t) = filter (\<lambda>k. nid k \<noteq> e) (map (prune e) (kids t))"
    by (cases t) simp
  then have "map nid (kids (prune e t)) = filter (\<lambda>i. i \<noteq> e) (map nid (kids t))"
    by (simp add: filter_map comp_def)
  moreover have "removeAll e xs = filter (\<lambda>i. i \<noteq> e) xs" for xs :: "nat list"
    by (induction xs) auto
  ultimately show "children (remove_node F e) p = removeAll e (children F p)"
    by (simp add: children_def f1 t)
  show "set (descendants (remove_node F e) p) \<subseteq> set (descendants F p) - {e}"
    using proper_prune_subset [of e t] by (simp add: descendants_def f1 t proper_kids)
qed


lemma appended_last:
  assumes "p \<in> set (concat (map ids F))"
  shows "children (appendChild F p n) p = children F p @ [n]
       \<and> descendants (appendChild F p n) p = descendants F p @ [n]"
proof -
  obtain t where t: "find_tree F p = Some t"
    using assms find_tree_None_iff [of F p] by auto
  show ?thesis by (simp add: children_def descendants_def find_tree_appendChild t)
qed

lemma parent_in_document:
  assumes "parentElement F f = Some p"
  shows "p \<in> set (concat (map ids F))"
proof -
  obtain u t where "u \<in> set F" "t \<in> set (subtrees u)" "nid t = p"
    using parentElement_SomeD [OF assms] by blast
  then have "p \<in> set (ids u)" using subtree_ids [of t u] by (auto simp: ids_nid_proper)
  then show ?thesis using \<open>u \<in> set F\<close> by auto
qed


text \<open>
  A field without a parent never gets as far as a verdict: line 151 reads
  \<open>field.parentElement.querySelector\<close> and throws.
\<close>

lemma validateField_orphan:
  "parentElement (forest st) f = None \<Longrightarrow> fst (validateField st f) = Inl TypeError"
  by (simp add: validateField_def Let_def set_classes_def)

text \<open>
  C7, as the script has it. Let \<open>p\<close> be the parent of the field, in a document whose
  elements are all different. One call of \<open>validateField\<close> changes the children of \<open>p\<close>
  in two steps and no more: the first element of class \<open>error-message\<close> found in the
  subtree of \<open>p\<close>, if there is one, is taken out of the document, whichever field it
  belongs to; and if the call returns false a new element of class \<open>error-message\<close> is
  appended, so that it is the last child of \<open>p\<close>. The element taken out has no parent
  afterwards and is no longer below \<open>p\<close>. Hence, when the subtree of \<open>p\<close> holds at most
  one element of class \<open>error-message\<close> before the call, it holds exactly the new one
  after a call that returns false and none after a call that returns true.
\<close>

theorem error_message_last_child:
  assumes d: "distinct (concat (map ids (forest st)))"
    and fresh: "\<forall>i \<in> set (concat (map ids (forest st))). i < nextId st"
    and par: "parentElement (forest st) f = Some p"
    and st': "st' = snd (validateField st f)"
  shows "children (forest st') p =
           (case querySelector st p ''error-message'' of
              None \<Rightarrow> children (forest st) p
            | Some e \<Rightarrow> removeAll e (children (forest st) p))
           @ (if fst (validateField st f) = Inr False then [nextId st] else [])
       \<and> (fst (validateField st f) = Inr False \<longrightarrow>
            children (forest st') p \<noteq> [] \<and> last (children (forest st') p) = nextId st
            \<and> has_class st' ''error-message'' (nextId st))
       \<and> (\<forall>e. querySelector st p ''error-message'' = Some e \<longrightarrow>
            e \<notin> set (descendants (forest st') p) \<and> parentElement (forest st') e = None)
       \<and> (length (filter (has_class st ''error-message'') (descendants (forest st) p)) \<le> 1 \<longrightarrow>
            (fst (validateField st f) = Inr False \<longrightarrow>
               filter (has_class st' ''error-message'') (descendants (forest st') p) = [nextId st])
            \<and> (fst (validateField st f) = Inr True \<longrightarrow>
               filter (has_class st' ''error-message'') (descendants (forest st') p) = []))"
proof -
  let ?E = "has_class st ''error-message''"
  let ?F = "forest st"
  let ?q = "querySelector st p ''error-message''"
  let ?s1 = "clear_error st f p"
  let ?F1 = "forest ?s1"
  let ?n = "nextId st"
  let ?base = "case ?q of None \<Rightarrow> children ?F p | Some e \<Rightarrow> removeAll e (children ?F p)"
  have pin: "p \<in> set (concat (map ids ?F))" using parent_in_document [OF par] .
  then obtain t where t: "find_tree ?F p = Some t" using find_tree_None_iff [of ?F p] by auto
  have qdef: "?q = find ?E (descendants ?F p)" by (simp add: querySelector_def)
  have F1: "?F1 = (case ?q of None \<Rightarrow> ?F | Some e \<Rightarrow> remove_node ?F e)"
    by (rule clear_error_forest_eq)
  have n1: "nextId ?s1 = ?n" by (simp add: clear_error_nextId)
  have ids1: "set (concat (map ids ?F1)) = set (concat (map ids ?F))"
  proof (cases ?q)
    case None
    then show ?thesis by (simp add: F1)
  next
    case (Some e)
    then have "?F1 = remove_node ?F e" by (simp add: F1)
    then show ?thesis using set_ids_remove_node [of ?F e] by simp
  qed
  have pin1: "p \<in> set (concat (map ids ?F1))" using pin ids1 by simp
  have kids1: "children ?F1 p = ?base"
  proof (cases ?q)
    case None
    then show ?thesis by (simp add: F1)
  next
    case (Some e)
    then show ?thesis using cleared_document(1) [OF d t, of ?E e] qdef by (simp add: F1)
  qed
  have below1: "set (descendants ?F1 p) \<subseteq> set (descendants ?F p)"
  proof (cases ?q)
    case None
    then show ?thesis by (simp add: F1)
  next
    case (Some e)
    then show ?thesis using cleared_document(2) [OF d t, of ?E e] qdef by (auto simp: F1)
  qed
  have gone1: "\<And>e. ?q = Some e \<Longrightarrow>
      e \<notin> set (descendants ?F1 p) \<and> parentElement ?F1 e = None \<and> e \<noteq> ?n"
  proof -
    fix e assume q: "?q = Some e"
    then have "e \<in> set (descendants ?F p)" using qdef find_SomeD by fastforce
    then have "e \<in> set (concat (map ids ?F))" using descendants_below by blast
    then have "e \<noteq> ?n" using fresh by auto
    then show "e \<notin> set (descendants ?F1 p) \<and> parentElement ?F1 e = None \<and> e \<noteq> ?n"
      using q removed_not_below [OF d] removed_no_parent [OF d] by (simp add: F1)
  qed
  have old1: "\<And>i. has_class ?s1 ''error-message'' i = ?E i" by (rule clear_error_class)
  have empty1: "length (filter ?E (descendants ?F p)) \<le> 1 \<Longrightarrow> filter ?E (descendants ?F1 p) = []"
  proof (cases ?q)
    case None
    then show ?thesis using find_None_filter qdef by (simp add: F1)
  next
    case (Some e)
    assume cnt: "length (filter ?E (descendants ?F p)) \<le> 1"
    have e: "?E e" "e \<in> set (descendants ?F p)" using Some qdef find_SomeD by fastforce+
    have sub: "set (descendants ?F1 p) \<subseteq> set (descendants ?F p) - {e}"
      using cleared_document(2) [OF d t, of ?E e] Some qdef by (simp add: F1)
    show ?thesis
    proof (rule ccontr)
      assume "filter ?E (descendants ?F1 p) \<noteq> []"
      then obtain x where x: "x \<in> set (descendants ?F1 p)" "?E x"
        by (auto simp: filter_empty_conv)
      then have "x \<in> set (filter ?E (descendants ?F p))" "x \<noteq> e" using sub by auto
      moreover have "e \<in> set (filter ?E (descendants ?F p))" using e by simp
      ultimately show False using at_most_one [OF cnt] by blast
    qed
  qed
  note vf = validateField_clear [OF par]
  consider (pass) "validateField st f = (Inr True, ?s1)"
    | (throw) "fst (validateField st f) = Inl TypeError" "forest st' = ?F1"
    | (fail) m p' where "parentElement ?F1 f = Some p'"
        "validateField st f = (Inr False, with_error ?s1 f p' m)"
  proof (cases "rule_message (info st f)")
    case None
    then show ?thesis using vf pass by simp
  next
    case (Some m)
    then have v: "validateField st f = fail_field ?s1 f m" using vf by simp
    show ?thesis
    proof (cases "parentElement ?F1 f")
      case None
      then have "fail_field ?s1 f m = (Inl TypeError, snd (fail_field ?s1 f m))"
        using fail_field_cases [of ?s1 f m] by simp
      then have "fst (fail_field ?s1 f m) = Inl TypeError" by (metis fst_conv)
      moreover have "forest (snd (fail_field ?s1 f m)) = ?F1"
        using None by (rule fail_field_throw)
      ultimately have "fst (validateField st f) = Inl TypeError" "forest st' = ?F1"
        using v by (simp_all add: st')
      then show ?thesis using throw by blast
    next
      case (Some p')
      then have "validateField st f = (Inr False, with_error ?s1 f p' m)"
        using v fail_field_cases [of ?s1 f m] by simp
      then show ?thesis using fail Some by blast
    qed
  qed
  then show ?thesis
  proof cases
    case pass
    then have r: "fst (validateField st f) = Inr True" "st' = ?s1" by (simp_all add: st')
    have c1: "children (forest st') p = ?base" using kids1 r by simp
    have c3: "\<forall>e. ?q = Some e \<longrightarrow>
        e \<notin> set (descendants (forest st') p) \<and> parentElement (forest st') e = None"
      using gone1 r by simp
    have c4: "length (filter ?E (descendants ?F p)) \<le> 1 \<longrightarrow>
        filter (has_class st' ''error-message'') (descendants (forest st') p) = []"
    proof
      assume "length (filter ?E (descendants ?F p)) \<le> 1"
      then have "filter ?E (descendants ?F1 p) = []" by (rule empty1)
      moreover have "has_class st' ''error-message'' = ?E" using old1 r by auto
      ultimately show "filter (has_class st' ''error-message'') (descendants (forest st') p) = []"
        using r by simp
    qed
    show ?thesis using r(1) c1 c3 c4 by simp
  next
    case throw
    have c1: "children (forest st') p = ?base" using kids1 throw by simp
    have c3: "\<forall>e. ?q = Some e \<longrightarrow>
        e \<notin> set (descendants (forest st') p) \<and> parentElement (forest st') e = None"
      using gone1 throw by simp
    show ?thesis using throw(1) c1 c3 by simp
  next
    case fail
    have "p' = p"
    proof (cases ?q)
      case None
      then show ?thesis using fail(1) par by (simp add: F1)
    next
      case (Some e)
      have F1e: "?F1 = remove_node ?F e" using Some by (simp add: F1)
      have "parentElement ?F1 e = None" using removed_no_parent [OF d, of e] F1e by simp
      then have "f \<noteq> e" using fail(1) by auto
      then have "parentElement ?F1 f = Some p"
        using parent_same [OF d par] F1e by simp
      then show ?thesis using fail(1) by simp
    qed
    let ?s2 = "with_error ?s1 f p m"
    have r: "fst (validateField st f) = Inr False" "st' = ?s2"
      using fail(2) \<open>p' = p\<close> by (simp_all add: st')
    have fo: "forest ?s2 = appendChild ?F1 p ?n" by (simp add: with_error_rest n1)
    note app = appended_last [OF pin1, of ?n]
    have c1: "children (forest st') p = ?base @ [?n]" using app kids1 by (simp add: r fo)
    have new: "has_class st' ''error-message'' ?n"
      using with_error_new_class [of ?s1 f p m] by (simp add: r n1)
    have c3: "\<forall>e. ?q = Some e \<longrightarrow>
        e \<notin> set (descendants (forest st') p) \<and> parentElement (forest st') e = None"
    proof (intro allI impI)
      fix e assume "?q = Some e"
      then have g: "e \<notin> set (descendants ?F1 p)" "parentElement ?F1 e = None" "e \<noteq> ?n"
        using gone1 by blast+
      have "parentElement (appendChild ?F1 p ?n) e = None"
        using no_parent_appendChild [OF g(2,3)] .
      then show "e \<notin> set (descendants (forest st') p) \<and> parentElement (forest st') e = None"
        using g app by (simp add: r fo)
    qed
    have c4: "length (filter ?E (descendants ?F p)) \<le> 1 \<longrightarrow>
        filter (has_class st' ''error-message'') (descendants (forest st') p) = [?n]"
    proof
      assume "length (filter ?E (descendants ?F p)) \<le> 1"
      then have empty: "filter ?E (descendants ?F1 p) = []" by (rule empty1)
      have old: "\<And>i. i \<in> set (descendants ?F1 p) \<Longrightarrow> has_class ?s2 ''error-message'' i = ?E i"
      proof -
        fix i assume "i \<in> set (descendants ?F1 p)"
        then have "i \<in> set (concat (map ids ?F1))" using descendants_below by blast
        then have "i < ?n" using fresh ids1 by blast
        then have "i \<noteq> nextId ?s1" using n1 by simp
        then show "has_class ?s2 ''error-message'' i = ?E i"
          using with_error_class [of i ?s1 f p m] by (simp add: clear_error_class)
      qed
      have "filter (has_class ?s2 ''error-message'') (descendants ?F1 p)
          = filter ?E (descendants ?F1 p)"
        using old by (intro filter_cong) simp_all
      then show "filter (has_class st' ''error-message'') (descendants (forest st') p) = [?n]"
        using app empty new by (simp add: r fo)
    qed
    show ?thesis using r(1) c1 new c3 c4 by simp
  qed
qed

theorem error_message_last_child_witness:
  "children (forest (snd (validateField (form_page ''email'' ''bob'' False) 2))) 1 = [2, 3]
   \<and> filter (has_class (snd (validateField (form_page ''email'' ''bob'' False) 2)) ''error-message'')
        (descendants (forest (snd (validateField (form_page ''email'' ''bob'' False) 2))) 1) = [3]"
proof -
  let ?P = "form_page ''email'' ''bob'' False"
  have d: "distinct (concat (map ids (forest ?P)))" by (simp add: form_page_def blank_def)
  have fresh: "\<forall>i \<in> set (concat (map ids (forest ?P))). i < nextId ?P"
    by (simp add: form_page_def blank_def)
  have q: "querySelector ?P 1 ''error-message'' = None" by code_simp
  have kids: "children (forest ?P) 1 = [2]" by code_simp
  have cnt: "length (filter (has_class ?P ''error-message'') (descendants (forest ?P) 1)) \<le> 1"
    by code_simp
  have bad: "fst (validateField ?P 2) = Inr False" by code_simp
  show ?thesis
    using error_message_last_child [OF d fresh form_page_parent refl] bad q kids cnt
    by (simp add: form_page_def blank_def)
qed

text \<open>
  C7 as stated fails twice over. The message is appended to the parent, so with a help
  text after the input it comes after the help text, not right after the field. And the
  message that a call removes is the first one in the parent, whichever field it belongs
  to: with two failing inputs in one group, validating the second removes the message of
  the first (element 4), which keeps its \<open>error\<close> class without a message.
\<close>

theorem message_not_after_field:
  "fst (validateField help_page 2) = Inr False
   \<and> children (forest (snd (validateField help_page 2))) 1 = [2, 3, 4]
   \<and> fst (validateField (snd (validateField pair_page 2)) 3) = Inr False
   \<and> children (forest (snd (validateField pair_page 2))) 1 = [2, 3, 4]
   \<and> children (forest (snd (validateField (snd (validateField pair_page 2)) 3))) 1 = [2, 3, 5]
   \<and> parentElement (forest (snd (validateField (snd (validateField pair_page 2)) 3))) 4 = None
   \<and> has_class (snd (validateField (snd (validateField pair_page 2)) 3)) ''error'' 2"
  by code_simp

section \<open>Removals and insertions keep the elements different\<close>

























section \<open>What a timer callback changes\<close>


lemma run_reset_info: "info (run_task (ResetForm g) s) = info (form_reset s g)"
  by (simp add: hideFormSuccess_info)








section \<open>What a removal takes out of a form\<close>




section \<open>From the submit to the reset\<close>










section \<open>The banner and its timer\<close>






end
